theory Spec2Isabelle
  imports Main "HOL-Library.FSet" "HOL-Library.Finite_Map"
begin

section \<open>Go values shared by the collection helpers\<close>

text \<open>
  A Go slice \<open>[]T\<close> is modelled by the list of its elements.  A runtime panic is a value
  of type \<open>error\<close>; a function that can panic returns \<open>error + 'a\<close>.
\<close>

datatype error =
    SliceBoundsOutOfRange \<comment> \<open>a slice expression \<open>s[lo:hi]\<close> with bad bounds\<close>
  | MakeSliceOfNonSliceType \<comment> \<open>\<open>reflect.MakeSlice\<close> applied to a type whose kind is not Slice\<close>
  | NilPointerDereference \<comment> \<open>a method called through a pointer that refers to no object\<close>
  | HashOfUnhashableType \<comment> \<open>a map key whose dynamic type cannot be compared\<close>

text \<open>
  The slice expression \<open>s[lo:hi]\<close>.  Go panics unless \<open>0 \<le> lo \<le> hi \<le> cap(s)\<close>; the
  functions below only ever ask for \<open>hi \<le> len(s)\<close> or for a bound that is out of range
  whatever the capacity is, so the model takes the length as the capacity.
\<close>

definition slice_expr :: "'a list \<Rightarrow> int \<Rightarrow> int \<Rightarrow> error + 'a list" where
  "slice_expr s lo hi =
     (if 0 \<le> lo \<and> lo \<le> hi \<and> hi \<le> int (length s)
      then Inr (take (nat (hi - lo)) (drop (nat lo) s))
      else Inl SliceBoundsOutOfRange)"

section \<open>Values of a comparable type as map keys\<close>

text \<open>
  The typed helpers take slices of a type \<open>T\<close> with the constraint \<open>comparable\<close> and use
  the elements as keys of a \<open>map[T]bool\<close>.  Go finds a key by \<open>==\<close> and hashes it first.
  Three kinds of value behave differently there:
  \<^item> \<open>Val a\<close>: a value that is equal to itself; two such values are \<open>==\<close> iff they are
    the same value;
  \<^item> \<open>Irreflexive a\<close>: a value that is not equal to itself, hence to no value at all (a
    floating-point NaN, or a struct or array that holds one);
  \<^item> \<open>Unhashable a\<close>: a value of an interface type (which satisfies \<open>comparable\<close>) whose
    dynamic type cannot be compared (a slice, a map, a function); using it as a map key
    panics.
\<close>

datatype 'a comparable = Val 'a | Irreflexive 'a | Unhashable 'a

text \<open>\<open>ordinary\<close>: can be hashed and is equal to itself.\<close>

fun ordinary :: "'a comparable \<Rightarrow> bool" where
  "ordinary (Val a) = True"
| "ordinary (Irreflexive a) = False"
| "ordinary (Unhashable a) = False"

fun hashable :: "'a comparable \<Rightarrow> bool" where
  "hashable (Val a) = True"
| "hashable (Irreflexive a) = True"
| "hashable (Unhashable a) = False"

text \<open>\<open>k == k'\<close> for two keys that have been hashed.\<close>

fun key_eq :: "'a comparable \<Rightarrow> 'a comparable \<Rightarrow> bool" where
  "key_eq (Val a) (Val b) = (a = b)"
| "key_eq k k' = False"

text \<open>
  A Go map is the list of its entries; no two entries have keys that are \<open>==\<close>.  Reading
  \<open>m[k]\<close> gives the value of the entry whose key is \<open>==\<close> to \<open>k\<close>, if there is one;
  the assignment \<open>m[k] = v\<close> overwrites that entry or adds a new one.  An irreflexive key
  is therefore never found again, and every assignment with one adds an entry.
\<close>

type_synonym ('k, 'v) go_map = "('k \<times> 'v) list"

definition map_index :: "('a comparable, 'v) go_map \<Rightarrow> 'a comparable \<Rightarrow> error + 'v option" where
  "map_index m k =
     (if hashable k
      then Inr (map_option snd (find (\<lambda>entry. key_eq (fst entry) k) m))
      else Inl HashOfUnhashableType)"

definition map_assign ::
  "('a comparable, 'v) go_map \<Rightarrow> 'a comparable \<Rightarrow> 'v \<Rightarrow> error + ('a comparable, 'v) go_map" where
  "map_assign m k v =
     (if hashable k
      then Inr (if list_ex (\<lambda>entry. key_eq (fst entry) k) m
                then map (\<lambda>entry. if key_eq (fst entry) k then (fst entry, v) else entry) m
                else m @ [(k, v)])
      else Inl HashOfUnhashableType)"

text \<open>
  Reading a \<open>map[T]bool\<close> at a key in a condition: the stored value, or the zero value
  \<open>false\<close> when the key is absent.
\<close>

definition index_bool :: "('a comparable, bool) go_map \<Rightarrow> 'a comparable \<Rightarrow> error + bool" where
  "index_bool m k =
     (case map_index m k of
        Inl e \<Rightarrow> Inl e
      | Inr None \<Rightarrow> Inr False
      | Inr (Some b) \<Rightarrow> Inr b)"

text \<open>
  A loop \<open>for _, x := range xs\<close> whose body updates the state \<open>st\<close> and may panic; a
  panic ends the loop.
\<close>

primrec for_range :: "('a \<Rightarrow> 's \<Rightarrow> error + 's) \<Rightarrow> 'a list \<Rightarrow> 's \<Rightarrow> error + 's" where
  "for_range body [] st = Inr st"
| "for_range body (x # xs) st =
     (case body x st of Inl e \<Rightarrow> Inl e | Inr st' \<Rightarrow> for_range body xs st')"

section \<open>Typed slice helpers of collections.go\<close>

subsection \<open>Pop and Shift\<close>

definition Pop :: "'a list \<Rightarrow> error + 'a list" where
  "Pop slice =
     (if length slice = 0 then Inr slice
      else slice_expr slice 0 (int (length slice) - 1))"

definition Shift :: "'a list \<Rightarrow> error + 'a list" where
  "Shift slice =
     (if length slice = 0 then Inr slice
      else slice_expr slice 1 (int (length slice)))"

subsection \<open>Unique\<close>

text \<open>
  The loop of \<open>Unique\<close> carries the map \<open>uniqueMap\<close> and the slice \<open>uniqueValues\<close>; one
  iteration of \<open>for _, value := range slice\<close> is \<open>Unique_step\<close>.
\<close>

definition Unique_step ::
  "'a comparable \<Rightarrow> ('a comparable, bool) go_map \<times> 'a comparable list
     \<Rightarrow> error + ('a comparable, bool) go_map \<times> 'a comparable list" where
  "Unique_step v st =
     (case st of (uniqueMap, uniqueValues) \<Rightarrow>
        (case map_index uniqueMap v of
           Inl e \<Rightarrow> Inl e
         | Inr found \<Rightarrow>
             if found = None
             then (case map_assign uniqueMap v True of
                     Inl e \<Rightarrow> Inl e
                   | Inr uniqueMap' \<Rightarrow> Inr (uniqueMap', uniqueValues @ [v]))
             else Inr (uniqueMap, uniqueValues)))"

definition Unique :: "'a comparable list \<Rightarrow> error + 'a comparable list" where
  "Unique slice =
     (case for_range Unique_step slice ([], []) of
        Inl e \<Rightarrow> Inl e
      | Inr (uniqueMap, uniqueValues) \<Rightarrow> Inr uniqueValues)"

text \<open>The position of the first occurrence of a value in a slice (its length when absent).\<close>

primrec first_index :: "'a list \<Rightarrow> 'a \<Rightarrow> nat" where
  "first_index [] v = 0"
| "first_index (x # xs) v = (if x = v then 0 else Suc (first_index xs v))"

subsection \<open>Intersect and Difference\<close>

text \<open>The first loop of both functions: \<open>set[item] = true\<close> for every item of \<open>slice1\<close>.\<close>

definition mark_all :: "'a comparable list \<Rightarrow> error + ('a comparable, bool) go_map" where
  "mark_all slice1 = for_range (\<lambda>item set. map_assign set item True) slice1 []"

definition Intersect :: "'a comparable list \<Rightarrow> 'a comparable list \<Rightarrow> error + 'a comparable list" where
  "Intersect slice1 slice2 =
     (case mark_all slice1 of
        Inl e \<Rightarrow> Inl e
      | Inr set' \<Rightarrow>
          for_range (\<lambda>item result.
                       case index_bool set' item of
                         Inl e \<Rightarrow> Inl e
                       | Inr b \<Rightarrow> Inr (if b then result @ [item] else result))
            slice2 [])"

definition Difference :: "'a comparable list \<Rightarrow> 'a comparable list \<Rightarrow> error + 'a comparable list" where
  "Difference slice1 slice2 =
     (case mark_all slice1 of
        Inl e \<Rightarrow> Inl e
      | Inr set' \<Rightarrow>
          (case for_range (\<lambda>item result.
                             case index_bool set' item of
                               Inl e \<Rightarrow> Inl e
                             | Inr b \<Rightarrow> Inr (if \<not> b then result @ [item] else result))
                  slice2 [] of
             Inl e \<Rightarrow> Inl e
           | Inr result \<Rightarrow>
               for_range (\<lambda>item result.
                            case index_bool set' item of
                              Inl e \<Rightarrow> Inl e
                            | Inr b \<Rightarrow> Inr (if \<not> b then result @ [item] else result))
                 slice1 result))"

subsection \<open>Chunk\<close>

text \<open>
  Go's \<open>int\<close> is modelled at its width on 64-bit platforms: a two's-complement integer
  of 64 bits.  Sums of two \<open>int\<close> values wrap around; \<open>wrap64\<close> maps the mathematical sum
  to the value the machine keeps.
\<close>

definition wrap64 :: "int \<Rightarrow> int" where
  "wrap64 x = (x + 2 ^ 63) mod 2 ^ 64 - 2 ^ 63"

text \<open>
  \<open>var chunks [][]T\<close> starts as the nil slice, which the model writes \<open>None\<close>; a slice
  that has been appended to is \<open>Some\<close> of its elements.  \<open>append\<close> to nil gives a
  one-element slice.
\<close>

definition append_nilable :: "'a list option \<Rightarrow> 'a \<Rightarrow> 'a list option" where
  "append_nilable s x = (case s of None \<Rightarrow> Some [x] | Some xs \<Rightarrow> Some (xs @ [x]))"

definition elems :: "'a list option \<Rightarrow> 'a list" where
  "elems s = (case s of None \<Rightarrow> [] | Some xs \<Rightarrow> xs)"

text \<open>
  The loop \<open>for i := 0; i < len(slice); i += chunkSize\<close>, entered at index \<open>i\<close> with the
  chunks collected so far.  Nothing in the loop itself bounds the number of iterations
  (with \<open>chunkSize = 0\<close> the index never moves), so the result is an \<open>option\<close>:
  \<open>None\<close> stands for a loop that does not return.
\<close>

partial_function (option) Chunk_loop ::
  "'a list \<Rightarrow> int \<Rightarrow> int \<Rightarrow> 'a list list option \<Rightarrow> (error + 'a list list option) option" where
  "Chunk_loop slice chunkSize i chunks =
     (if i < int (length slice) then
        (let end = wrap64 (i + chunkSize);
             end = (if end > int (length slice) then int (length slice) else end)
         in case slice_expr slice i end of
              Inl e \<Rightarrow> Some (Inl e)
            | Inr chunk \<Rightarrow>
                Chunk_loop slice chunkSize (wrap64 (i + chunkSize)) (append_nilable chunks chunk))
      else Some (Inr chunks))"

declare Chunk_loop.simps [code]

definition Chunk :: "'a list \<Rightarrow> int \<Rightarrow> (error + 'a list list option) option" where
  "Chunk slice chunkSize =
     (if chunkSize \<le> 0 then Some (Inr None)
      else Chunk_loop slice chunkSize 0 None)"

section \<open>Reflection-based helpers of collections.go\<close>

text \<open>
  The reflection helpers take \<open>interface{}\<close> arguments and branch on the kind of the
  dynamic value.  The model keeps the three cases the code distinguishes: a slice, an array
  (both with their elements), and a value of any other kind.
\<close>

datatype 'v any_value = Slice "'v list" | Array "'v list" | Other

text \<open>
  \<open>v.Kind() == reflect.Slice || v.Kind() == reflect.Array\<close>, together with the elements
  \<open>v.Index(0), ..., v.Index(v.Len() - 1)\<close> the loops then visit.
\<close>

definition slice_or_array :: "'v any_value \<Rightarrow> 'v list option" where
  "slice_or_array v = (case v of Slice xs \<Rightarrow> Some xs | Array xs \<Rightarrow> Some xs | Other \<Rightarrow> None)"

text \<open>
  \<open>reflect.MakeSlice(v.Type(), 0, 0)\<close> belongs to Go's standard library: it panics with
  ``reflect.MakeSlice of non-slice type'' unless the kind of the type is Slice, and
  otherwise returns an empty slice of that type.  (For the nil interface the panic comes
  one step earlier, from \<open>v.Type()\<close> on the zero \<open>reflect.Value\<close>; the model does not tell
  the two panics apart.)
\<close>

definition MakeSlice_like :: "'v any_value \<Rightarrow> error + 'v list" where
  "MakeSlice_like v = (case v of Slice xs \<Rightarrow> Inr [] | _ \<Rightarrow> Inl MakeSliceOfNonSliceType)"

text \<open>
  \<open>reflect.DeepEqual\<close> is standard-library code as well; the helpers take it as the
  parameter \<open>DeepEqual\<close>.
\<close>

primrec Contains_loop :: "('v \<Rightarrow> 'v \<Rightarrow> bool) \<Rightarrow> 'v list \<Rightarrow> 'v \<Rightarrow> bool" where
  "Contains_loop DeepEqual [] element = False"
| "Contains_loop DeepEqual (x # xs) element =
     (if DeepEqual x element then True else Contains_loop DeepEqual xs element)"

definition Contains_N :: "('v \<Rightarrow> 'v \<Rightarrow> bool) \<Rightarrow> 'v any_value \<Rightarrow> 'v \<Rightarrow> bool" where
  "Contains_N DeepEqual collection element =
     (case slice_or_array collection of
        Some xs \<Rightarrow> Contains_loop DeepEqual xs element
      | None \<Rightarrow> False)"

definition Difference_N ::
  "('v \<Rightarrow> 'v \<Rightarrow> bool) \<Rightarrow> 'v any_value \<Rightarrow> 'v any_value \<Rightarrow> error + 'v any_value" where
  "Difference_N DeepEqual collection1 collection2 =
     (case MakeSlice_like collection1 of
        Inl e \<Rightarrow> Inl e
      | Inr result \<Rightarrow>
          (case slice_or_array collection1 of
             Some xs \<Rightarrow>
               Inr (Slice (fold (\<lambda>item result.
                                   if \<not> Contains_N DeepEqual collection2 item
                                   then result @ [item] else result) xs result))
           | None \<Rightarrow> Inr (Slice result)))"

definition Intersection ::
  "('v \<Rightarrow> 'v \<Rightarrow> bool) \<Rightarrow> 'v any_value \<Rightarrow> 'v any_value \<Rightarrow> error + 'v any_value" where
  "Intersection DeepEqual collection1 collection2 =
     (case MakeSlice_like collection1 of
        Inl e \<Rightarrow> Inl e
      | Inr result \<Rightarrow>
          (case slice_or_array collection1 of
             Some xs \<Rightarrow>
               Inr (Slice (fold (\<lambda>item result.
                                   if Contains_N DeepEqual collection2 item
                                   then result @ [item] else result) xs result))
           | None \<Rightarrow> Inr (Slice result)))"

section \<open>The generic hash set\<close>

text \<open>
  Modelled from the spec: the type \<open>HashSet\<close>, its constructor \<open>NewHashSet\<close> and its
  methods are called by src/test/hashset_test.go, but the file that implements them is not
  among the sources.  The backing storage is what section 3 of the specification describes:
  a mapping from element value to a presence marker, so that every element present occurs
  once.
\<close>

record 'a HashSet =
  items :: "('a, unit) fmap"

text \<open>
  Modelled from the spec: a set is created, mutated in place and handed to the set-algebra
  methods by reference (the tests hold \<open>*HashSet\<close> values), and the specification speaks of
  instances, of operands left unmodified and of storage that is never shared.  The store
  keeps one \<open>HashSet\<close> per allocated reference; reference \<open>p\<close> is allocated in \<open>h\<close> when
  \<open>p < length h\<close>.
\<close>

type_synonym ref = nat

type_synonym 'a heap = "'a HashSet list"

text \<open>
  Modelled from the spec: following a reference to the set it refers to.  A method called
  through a reference that is not allocated panics.
\<close>

definition deref :: "'a heap \<Rightarrow> ref \<Rightarrow> error + 'a HashSet" where
  "deref h p = (if p < length h then Inr (h ! p) else Inl NilPointerDereference)"

text \<open>
  Modelled from the spec: a new instance gets storage of its own, at a reference that was
  not allocated before.
\<close>

definition alloc :: "'a heap \<Rightarrow> 'a HashSet \<Rightarrow> 'a heap \<times> ref" where
  "alloc h s = (h @ [s], length h)"

text \<open>
  Modelled from the spec: Create takes zero or more initial elements and returns a new set
  holding them, duplicates collapsed to one entry.
\<close>

definition NewHashSet :: "'a heap \<Rightarrow> 'a list \<Rightarrow> 'a heap \<times> ref" where
  "NewHashSet h elements = alloc h \<lparr>items = fold (\<lambda>e m. fmupd e () m) elements fmempty\<rparr>"

text \<open>
  Modelled from the spec: Add mutates the set; adding an element already present is a no-op
  with respect to size.
\<close>

definition HashSet_Add :: "'a heap \<Rightarrow> ref \<Rightarrow> 'a \<Rightarrow> error + 'a heap" where
  "HashSet_Add h p e =
     (case deref h p of
        Inl err \<Rightarrow> Inl err
      | Inr s \<Rightarrow> Inr (h[p := s\<lparr>items := fmupd e () (items s)\<rparr>]))"

text \<open>Modelled from the spec: Contains is true iff the element is currently present.\<close>

definition HashSet_Contains :: "'a heap \<Rightarrow> ref \<Rightarrow> 'a \<Rightarrow> error + bool" where
  "HashSet_Contains h p e =
     (case deref h p of
        Inl err \<Rightarrow> Inl err
      | Inr s \<Rightarrow> Inr (e |\<in>| fmdom (items s)))"

text \<open>
  Modelled from the spec: Size is the number of distinct elements currently present, 0 for
  an empty set.
\<close>

definition HashSet_Size :: "'a heap \<Rightarrow> ref \<Rightarrow> error + int" where
  "HashSet_Size h p =
     (case deref h p of
        Inl err \<Rightarrow> Inl err
      | Inr s \<Rightarrow> Inr (int (fcard (fmdom (items s)))))"

text \<open>
  Modelled from the spec: Union returns a new set that contains every element present in
  either operand.
\<close>

definition HashSet_Union :: "'a heap \<Rightarrow> ref \<Rightarrow> ref \<Rightarrow> error + 'a heap \<times> ref" where
  "HashSet_Union h p q =
     (case deref h p of
        Inl err \<Rightarrow> Inl err
      | Inr a \<Rightarrow>
          (case deref h q of
             Inl err \<Rightarrow> Inl err
           | Inr b \<Rightarrow> Inr (alloc h \<lparr>items = items a ++\<^sub>f items b\<rparr>)))"

text \<open>
  Modelled from the spec: Intersection returns a new set that contains only the elements
  present in both operands; the smaller operand is iterated against membership in the
  larger.
\<close>

definition HashSet_Intersection :: "'a heap \<Rightarrow> ref \<Rightarrow> ref \<Rightarrow> error + 'a heap \<times> ref" where
  "HashSet_Intersection h p q =
     (case deref h p of
        Inl err \<Rightarrow> Inl err
      | Inr a \<Rightarrow>
          (case deref h q of
             Inl err \<Rightarrow> Inl err
           | Inr b \<Rightarrow>
               Inr (alloc h
                 \<lparr>items =
                    (if fcard (fmdom (items a)) \<le> fcard (fmdom (items b))
                     then fmfilter (\<lambda>x. x |\<in>| fmdom (items b)) (items a)
                     else fmfilter (\<lambda>x. x |\<in>| fmdom (items a)) (items b))\<rparr>)))"

text \<open>
  Modelled from the spec: Difference returns a new set that contains the elements present
  in the receiver but absent from the other operand.
\<close>

definition HashSet_Difference :: "'a heap \<Rightarrow> ref \<Rightarrow> ref \<Rightarrow> error + 'a heap \<times> ref" where
  "HashSet_Difference h p q =
     (case deref h p of
        Inl err \<Rightarrow> Inl err
      | Inr a \<Rightarrow>
          (case deref h q of
             Inl err \<Rightarrow> Inl err
           | Inr b \<Rightarrow> Inr (alloc h \<lparr>items = fmfilter (\<lambda>x. x |\<notin>| fmdom (items b)) (items a)\<rparr>)))"

section \<open>Auxiliary definitions for the proofs\<close>

text \<open>
  The value of \<open>chunks\<close> after the chunks \<open>new\<close> have been appended to it one by one: nil
  stays nil when nothing is appended.
\<close>

definition extend :: "'a list option \<Rightarrow> 'a list \<Rightarrow> 'a list option" where
  "extend acc new = (if new = [] then acc else Some (elems acc @ new))"

text \<open>What reading a map at a key gives once the key has been hashed.\<close>

definition lookup :: "('a comparable, 'v) go_map \<Rightarrow> 'a comparable \<Rightarrow> 'v option" where
  "lookup m k = map_option snd (find (\<lambda>entry. key_eq (fst entry) k) m)"

text \<open>
  A slice with every later occurrence of an element removed, built from left to right.
\<close>

definition keep_first :: "'a list \<Rightarrow> 'a list" where
  "keep_first xs = fold (\<lambda>x vs. if x \<in> set vs then vs else vs @ [x]) xs []"

section \<open>Helper lemmas\<close>

subsection \<open>Slice expressions\<close>

lemma slice_expr_suffix:
  "n \<le> length s \<Longrightarrow> slice_expr s (int n) (int (length s)) = Inr (drop n s)"
  by (simp add: slice_expr_def)

lemma fold_append_if:
  "fold (\<lambda>item result. if P item then result @ [item] else result) xs acc
     = acc @ filter P xs"
  by (induction xs arbitrary: acc) auto

subsection \<open>Maps and the typed helpers that use them\<close>

lemma key_eq_iff: "key_eq k k' \<longleftrightarrow> ordinary k \<and> k = k'"
  by (cases k; cases k') auto

lemma ordinary_hashable: "ordinary k \<Longrightarrow> hashable k"
  by (cases k) auto

lemma map_index_hashable: "hashable k \<Longrightarrow> map_index m k = Inr (lookup m k)"
  by (simp add: map_index_def lookup_def)

lemma lookup_Nil: "lookup [] k = None"
  by (simp add: lookup_def)

lemma lookup_append:
  "lookup (m @ [(k, v)]) k' =
     (case lookup m k' of Some x \<Rightarrow> Some x | None \<Rightarrow> if key_eq k k' then Some v else None)"
  by (induction m) (auto simp: lookup_def)

lemma lookup_overwrite:
  "lookup (map (\<lambda>entry. if key_eq (fst entry) k then (fst entry, v) else entry) m) k' =
     (case lookup m k' of None \<Rightarrow> None | Some x \<Rightarrow> if key_eq k k' then Some v else Some x)"
  by (induction m) (auto simp: lookup_def key_eq_iff)

lemma list_ex_lookup: "list_ex (\<lambda>entry. key_eq (fst entry) k) m \<longleftrightarrow> lookup m k \<noteq> None"
  by (induction m) (auto simp: lookup_def)

lemma lookup_assign:
  assumes "hashable k"
  shows "\<exists>m'. map_assign m k v = Inr m'
           \<and> (\<forall>k'. lookup m' k' = (if key_eq k k' then Some v else lookup m k'))"
proof (cases "lookup m k = None")
  case True
  then have "map_assign m k v = Inr (m @ [(k, v)])"
    using assms by (simp add: map_assign_def list_ex_lookup)
  moreover have "lookup (m @ [(k, v)]) k' = (if key_eq k k' then Some v else lookup m k')" for k'
    using True by (auto simp: lookup_append key_eq_iff split: option.splits)
  ultimately show ?thesis by simp
next
  case False
  let ?m' = "map (\<lambda>entry. if key_eq (fst entry) k then (fst entry, v) else entry) m"
  have "map_assign m k v = Inr ?m'"
    using False assms by (simp add: map_assign_def list_ex_lookup)
  moreover have "lookup ?m' k' = (if key_eq k k' then Some v else lookup m k')" for k'
  proof -
    have "lookup ?m' k' =
            (case lookup m k' of None \<Rightarrow> None | Some x \<Rightarrow> if key_eq k k' then Some v else Some x)"
      by (rule lookup_overwrite)
    then show ?thesis
      using False by (auto simp: key_eq_iff split: option.splits)
  qed
  ultimately show ?thesis by simp
qed

lemma for_range_append:
  "for_range body (xs @ ys) st =
     (case for_range body xs st of Inl e \<Rightarrow> Inl e | Inr st' \<Rightarrow> for_range body ys st')"
  by (induction xs arbitrary: st) (auto split: sum.splits)

lemma mark_all_lookup:
  assumes "\<forall>x \<in> set xs. hashable x"
  shows "\<exists>m. mark_all xs = Inr m
           \<and> (\<forall>k. lookup m k = (if ordinary k \<and> k \<in> set xs then Some True else None))"
  using assms
proof (induction xs rule: rev_induct)
  case Nil
  show ?case by (simp add: mark_all_def lookup_Nil)
next
  case (snoc x xs)
  then obtain m where m: "mark_all xs = Inr m"
      "\<forall>k. lookup m k = (if ordinary k \<and> k \<in> set xs then Some True else None)"
    by auto
  from snoc.prems have "hashable x" by simp
  from lookup_assign [OF this, of m True]
  obtain m' where m': "map_assign m x True = Inr m'"
      "\<forall>k'. lookup m' k' = (if key_eq x k' then Some True else lookup m k')"
    by blast
  have "mark_all (xs @ [x]) = Inr m'"
    using m(1) m'(1) by (simp add: mark_all_def for_range_append)
  moreover have "lookup m' k = (if ordinary k \<and> k \<in> set (xs @ [x]) then Some True else None)" for k
    using m(2) m'(2) by (auto simp: key_eq_iff)
  ultimately show ?case by blast
qed

lemma for_range_keep:
  assumes "\<forall>x \<in> set xs. f x = Inr (P x)"
  shows "for_range (\<lambda>item result.
                      case f item of
                        Inl e \<Rightarrow> Inl e
                      | Inr b \<Rightarrow> Inr (if b then result @ [item] else result)) xs acc
           = Inr (acc @ filter P xs)"
  using assms by (induction xs arbitrary: acc) auto

lemma for_range_drop:
  assumes "\<forall>x \<in> set xs. f x = Inr (P x)"
  shows "for_range (\<lambda>item result.
                      case f item of
                        Inl e \<Rightarrow> Inl e
                      | Inr b \<Rightarrow> Inr (if \<not> b then result @ [item] else result)) xs acc
           = Inr (acc @ filter (\<lambda>x. \<not> P x) xs)"
  using assms by (induction xs arbitrary: acc) auto

lemma index_bool_marked:
  assumes "\<forall>k. lookup m k = (if ordinary k \<and> k \<in> set xs then Some True else None)"
    and "hashable k"
  shows "index_bool m k = Inr (ordinary k \<and> k \<in> set xs)"
  using assms by (simp add: index_bool_def map_index_hashable)

lemma Intersect_filter:
  assumes "\<forall>x \<in> set slice1. hashable x" "\<forall>x \<in> set slice2. hashable x"
  shows "Intersect slice1 slice2 = Inr (filter (\<lambda>x. ordinary x \<and> x \<in> set slice1) slice2)"
proof -
  from mark_all_lookup [OF assms(1)]
  obtain m where m: "mark_all slice1 = Inr m"
      "\<forall>k. lookup m k = (if ordinary k \<and> k \<in> set slice1 then Some True else None)"
    by blast
  have "\<forall>x \<in> set slice2. index_bool m x = Inr (ordinary x \<and> x \<in> set slice1)"
    using index_bool_marked [OF m(2)] assms(2) by blast
  from for_range_keep [OF this, of "[]"] m(1) show ?thesis
    by (simp add: Intersect_def)
qed

lemma Difference_filter:
  assumes "\<forall>x \<in> set slice1. hashable x" "\<forall>x \<in> set slice2. hashable x"
  shows "Difference slice1 slice2 = Inr (filter (\<lambda>x. \<not> (ordinary x \<and> x \<in> set slice1)) slice2
           @ filter (\<lambda>x. \<not> ordinary x) slice1)"
proof -
  from mark_all_lookup [OF assms(1)]
  obtain m where m: "mark_all slice1 = Inr m"
      "\<forall>k. lookup m k = (if ordinary k \<and> k \<in> set slice1 then Some True else None)"
    by blast
  have 2: "\<forall>x \<in> set slice2. index_bool m x = Inr (ordinary x \<and> x \<in> set slice1)"
    using index_bool_marked [OF m(2)] assms(2) by blast
  have 1: "\<forall>x \<in> set slice1. index_bool m x = Inr (ordinary x \<and> x \<in> set slice1)"
    using index_bool_marked [OF m(2)] assms(1) by blast
  have "filter (\<lambda>x. \<not> (ordinary x \<and> x \<in> set slice1)) slice1 = filter (\<lambda>x. \<not> ordinary x) slice1"
    by (rule filter_cong) auto
  with for_range_drop [OF 2, of "[]"] for_range_drop [OF 1] m(1) show ?thesis
    by (simp add: Difference_def)
qed

lemma Difference_members:
  assumes "\<forall>x \<in> set slice1. ordinary x" "\<forall>x \<in> set slice2. ordinary x"
  shows "\<exists>r. Difference slice1 slice2 = Inr r
           \<and> (\<forall>x. x \<in> set r \<longleftrightarrow> x \<in> set slice2 \<and> x \<notin> set slice1)"
proof -
  have "Difference slice1 slice2 = Inr (filter (\<lambda>x. \<not> (ordinary x \<and> x \<in> set slice1)) slice2
           @ filter (\<lambda>x. \<not> ordinary x) slice1)"
    using assms by (intro Difference_filter) (auto intro: ordinary_hashable)
  then show ?thesis using assms by auto
qed

subsection \<open>Unique\<close>

lemma keep_first_Nil: "keep_first [] = []"
  by (simp add: keep_first_def)

lemma keep_first_snoc:
  "keep_first (xs @ [x]) = (if x \<in> set (keep_first xs) then keep_first xs else keep_first xs @ [x])"
  by (simp add: keep_first_def)

lemma set_keep_first: "set (keep_first xs) = set xs"
  by (induction xs rule: rev_induct) (auto simp: keep_first_snoc keep_first_Nil)

lemma distinct_keep_first: "distinct (keep_first xs)"
  by (induction xs rule: rev_induct) (auto simp: keep_first_snoc keep_first_Nil)

lemma keep_first_distinct_id: "distinct ys \<Longrightarrow> keep_first ys = ys"
  by (induction ys rule: rev_induct) (auto simp: keep_first_snoc keep_first_Nil set_keep_first)

lemma first_index_append_mem:
  "a \<in> set xs \<Longrightarrow> first_index (xs @ ys) a = first_index xs a"
  by (induction xs) auto

lemma first_index_append_notin:
  "a \<notin> set xs \<Longrightarrow> first_index (xs @ ys) a = length xs + first_index ys a"
  by (induction xs) auto

lemma first_index_less: "a \<in> set xs \<Longrightarrow> first_index xs a < length xs"
  by (induction xs) auto

lemma keep_first_order:
  "sorted_wrt (\<lambda>a b. first_index xs a < first_index xs b) (keep_first xs)"
proof (induction xs rule: rev_induct)
  case Nil
  show ?case by (simp add: keep_first_Nil)
next
  case (snoc x xs)
  have old: "sorted_wrt (\<lambda>a b. first_index (xs @ [x]) a < first_index (xs @ [x]) b) (keep_first xs)"
    by (rule sorted_wrt_mono_rel [OF _ snoc.IH]) (simp add: set_keep_first first_index_append_mem)
  show ?case
  proof (cases "x \<in> set xs")
    case True
    with old show ?thesis by (simp add: keep_first_snoc set_keep_first)
  next
    case False
    have "\<forall>a \<in> set (keep_first xs). first_index (xs @ [x]) a < first_index (xs @ [x]) x"
      using False
      by (auto simp: set_keep_first first_index_append_mem first_index_append_notin first_index_less)
    with old False show ?thesis
      by (simp add: keep_first_snoc set_keep_first sorted_wrt_append)
  qed
qed

lemma Unique_loop_ordinary:
  assumes "\<forall>x \<in> set xs. ordinary x"
  shows "\<exists>m. for_range Unique_step xs ([], []) = Inr (m, keep_first xs)
           \<and> (\<forall>k. lookup m k = (if ordinary k \<and> k \<in> set xs then Some True else None))"
  using assms
proof (induction xs rule: rev_induct)
  case Nil
  show ?case by (simp add: keep_first_Nil lookup_Nil)
next
  case (snoc x xs)
  then obtain m where m: "for_range Unique_step xs ([], []) = Inr (m, keep_first xs)"
      "\<forall>k. lookup m k = (if ordinary k \<and> k \<in> set xs then Some True else None)"
    by auto
  from snoc.prems have x: "ordinary x" "hashable x" by (simp_all add: ordinary_hashable)
  have idx: "map_index m x = Inr (if x \<in> set xs then Some True else None)"
    using m(2) x by (simp add: map_index_hashable)
  show ?case
  proof (cases "x \<in> set xs")
    case True
    then have "Unique_step x (m, keep_first xs) = Inr (m, keep_first (xs @ [x]))"
      by (simp add: Unique_step_def idx keep_first_snoc set_keep_first)
    with m True show ?thesis
      by (auto simp: for_range_append)
  next
    case False
    from lookup_assign [OF x(2), of m True]
    obtain m' where m': "map_assign m x True = Inr m'"
        "\<forall>k'. lookup m' k' = (if key_eq x k' then Some True else lookup m k')"
      by blast
    have "Unique_step x (m, keep_first xs) = Inr (m', keep_first (xs @ [x]))"
      using False by (simp add: Unique_step_def idx m'(1) keep_first_snoc set_keep_first)
    moreover have "lookup m' k = (if ordinary k \<and> k \<in> set (xs @ [x]) then Some True else None)" for k
      using m(2) m'(2) by (auto simp: key_eq_iff)
    ultimately show ?thesis
      using m(1) by (auto simp: for_range_append)
  qed
qed

lemma Unique_ordinary:
  "\<forall>x \<in> set xs. ordinary x \<Longrightarrow> Unique xs = Inr (keep_first xs)"
  using Unique_loop_ordinary [of xs] by (auto simp: Unique_def)

subsection \<open>Chunk\<close>

lemma wrap64_id: "- (2 ^ 63) \<le> x \<Longrightarrow> x < 2 ^ 63 \<Longrightarrow> wrap64 x = x"
  by (simp add: wrap64_def)

lemma extend_Nil: "extend acc [] = acc"
  by (simp add: extend_def)

lemma extend_append_nilable: "extend (append_nilable acc c) new = extend acc (c # new)"
  by (cases acc) (simp_all add: extend_def append_nilable_def elems_def)

lemma Chunk_loop_exit:
  "int (length s) \<le> i \<Longrightarrow> Chunk_loop s cs i acc = Some (Inr acc)"
  by (subst Chunk_loop.simps) simp

lemma Chunk_loop_step:
  assumes "n < length s" "0 < cs" "int n + cs < 2 ^ 63"
  shows "Chunk_loop s cs (int n) acc =
           Chunk_loop s cs (int n + cs)
             (append_nilable acc (take (min (nat cs) (length s - n)) (drop n s)))"
proof -
  have w: "wrap64 (int n + cs) = int n + cs"
    using assms by (intro wrap64_id) auto
  show ?thesis
  proof (cases "int n + cs > int (length s)")
    case True
    have se: "slice_expr s (int n) (int (length s)) = Inr (drop n s)"
      using assms(1) by (simp add: slice_expr_suffix)
    have "min (nat cs) (length s - n) = length s - n"
      using True assms by linarith
    then show ?thesis
      using assms True se by (subst Chunk_loop.simps) (simp add: w Let_def)
  next
    case False
    have se: "slice_expr s (int n) (int n + cs) = Inr (take (nat cs) (drop n s))"
      using assms False by (simp add: slice_expr_def)
    have "min (nat cs) (length s - n) = nat cs"
      using False assms by linarith
    then show ?thesis
      using assms False se by (subst Chunk_loop.simps) (simp add: w Let_def)
  qed
qed

lemma Chunk_loop_wrap_panics:
  assumes "i < int (length s)" "wrap64 (i + cs) < i"
  shows "Chunk_loop s cs i acc = Some (Inl SliceBoundsOutOfRange)"
proof -
  have "slice_expr s i (wrap64 (i + cs)) = Inl SliceBoundsOutOfRange"
    using assms by (simp add: slice_expr_def)
  then show ?thesis
    using assms by (subst Chunk_loop.simps) (simp add: Let_def)
qed

lemma Chunk_loop_run:
  assumes "0 < cs" "int (length s) + cs < 2 ^ 63"
  shows "\<exists>new. Chunk_loop s cs (int n) acc = Some (Inr (extend acc new))
           \<and> concat new = drop n s
           \<and> (\<forall>c \<in> set (butlast new). int (length c) = cs)
           \<and> (new \<noteq> [] \<longrightarrow> 1 \<le> length (last new) \<and> int (length (last new)) \<le> cs)"
proof (induction "length s - n" arbitrary: n acc rule: less_induct)
  case less
  show ?case
  proof (cases "n < length s")
    case False
    then have "Chunk_loop s cs (int n) acc = Some (Inr (extend acc []))"
      by (simp add: Chunk_loop_exit extend_Nil)
    moreover have "concat [] = drop n s" using False by simp
    ultimately show ?thesis by (intro exI [of _ "[]"]) simp
  next
    case True
    define c where "c = take (min (nat cs) (length s - n)) (drop n s)"
    define n' where "n' = n + nat cs"
    have n': "int n' = int n + cs" using assms(1) by (simp add: n'_def)
    have lc: "length c = min (nat cs) (length s - n)" by (simp add: c_def)
    have cpos: "1 \<le> length c" "int (length c) \<le> cs"
      using True assms(1) by (auto simp: lc)
    have step: "Chunk_loop s cs (int n) acc = Chunk_loop s cs (int n') (append_nilable acc c)"
      unfolding n' c_def using True assms by (intro Chunk_loop_step) auto
    have "length s - n' < length s - n" using True assms(1) by (simp add: n'_def)
    from less [OF this, of "append_nilable acc c"]
    obtain new where new:
      "Chunk_loop s cs (int n') (append_nilable acc c) = Some (Inr (extend (append_nilable acc c) new))"
      "concat new = drop n' s"
      "\<forall>c \<in> set (butlast new). int (length c) = cs"
      "new \<noteq> [] \<longrightarrow> 1 \<le> length (last new) \<and> int (length (last new)) \<le> cs"
      by blast
    have c1: "c = take (nat cs) (drop n s)"
      unfolding c_def by (cases "nat cs \<le> length s - n") (simp_all add: min_def)
    have d1: "drop n' s = drop (nat cs) (drop n s)"
      by (simp add: n'_def add.commute)
    have "c @ drop n' s = drop n s"
      unfolding c1 d1 by (rule append_take_drop_id)
    then have cat: "concat (c # new) = drop n s"
      using new(2) by simp
    have full: "new \<noteq> [] \<Longrightarrow> int (length c) = cs"
    proof -
      assume "new \<noteq> []"
      then have "drop n' s \<noteq> []" using new(2) new(4) by (cases new rule: rev_cases) auto
      then have "n' < length s" by simp
      then show ?thesis using assms(1) by (simp add: lc n'_def)
    qed
    have "Chunk_loop s cs (int n) acc = Some (Inr (extend acc (c # new)))"
      using step new(1) by (simp add: extend_append_nilable)
    moreover have "\<forall>d \<in> set (butlast (c # new)). int (length d) = cs"
      using new(3) full by auto
    moreover have "1 \<le> length (last (c # new)) \<and> int (length (last (c # new))) \<le> cs"
      using new(4) cpos by auto
    ultimately show ?thesis using cat by (intro exI [of _ "c # new"]) simp
  qed
qed

lemma Chunk_loop_single:
  assumes "s \<noteq> []" "int (length s) \<le> cs" "cs < 2 ^ 63"
  shows "Chunk_loop s cs 0 None = Some (Inr (Some [s]))"
proof -
  have "Chunk_loop s cs (int 0) None = Chunk_loop s cs (int 0 + cs)
             (append_nilable None (take (min (nat cs) (length s - 0)) (drop 0 s)))"
  proof (intro Chunk_loop_step)
    show "0 < length s" using assms(1) by simp
    show "0 < cs" using assms(1,2) by (cases s) auto
    show "int 0 + cs < 2 ^ 63" using assms(3) by simp
  qed
  moreover have "min (nat cs) (length s) = length s" using assms by linarith
  ultimately show ?thesis
    using assms by (simp add: Chunk_loop_exit append_nilable_def)
qed

subsection \<open>Reflection-based helpers\<close>

lemma Contains_loop_iff: "Contains_loop deq xs e \<longleftrightarrow> (\<exists>x \<in> set xs. deq x e)"
  by (induction xs) auto

lemma Contains_N_Slice: "Contains_N deq (Slice xs) e \<longleftrightarrow> (\<exists>x \<in> set xs. deq x e)"
  by (simp add: Contains_N_def slice_or_array_def Contains_loop_iff)

lemma Contains_N_Slice_eq: "Contains_N (=) (Slice xs) e \<longleftrightarrow> e \<in> set xs"
  by (auto simp: Contains_N_Slice)

lemma Difference_N_Slice:
  "Difference_N deq (Slice xs) c2 = Inr (Slice (filter (\<lambda>x. \<not> Contains_N deq c2 x) xs))"
  by (simp add: Difference_N_def MakeSlice_like_def slice_or_array_def fold_append_if)

lemma Intersection_Slice:
  "Intersection deq (Slice xs) c2 = Inr (Slice (filter (Contains_N deq c2) xs))"
  by (simp add: Intersection_def MakeSlice_like_def slice_or_array_def fold_append_if)

lemma Contains_N_Intersection:
  assumes "symp deq" "transp deq"
  shows "Contains_N deq (Slice (filter (Contains_N deq (Slice d)) c)) y
           \<longleftrightarrow> Contains_N deq (Slice c) y \<and> Contains_N deq (Slice d) y"
proof -
  have s: "deq u v \<Longrightarrow> deq v u" for u v using assms(1) by (rule sympD)
  have t: "deq u v \<Longrightarrow> deq v w \<Longrightarrow> deq u w" for u v w using assms(2) by (rule transpD)
  show ?thesis
    unfolding Contains_N_Slice by (auto intro: s t) (metis s t)
qed

subsection \<open>The store of hash sets\<close>

lemma deref_valid: "p < length h \<Longrightarrow> deref h p = Inr (h ! p)"
  by (simp add: deref_def)

lemma deref_append_old: "p < length h \<Longrightarrow> deref (h @ [s]) p = deref h p"
  by (simp add: deref_def nth_append)

lemma deref_append_new: "deref (h @ [s]) (length h) = Inr s"
  by (simp add: deref_def)

lemma deref_fresh: "deref h (length h) = Inl NilPointerDereference"
  by (simp add: deref_def)

lemma Size_append_old: "p < length h \<Longrightarrow> HashSet_Size (h @ [s]) p = HashSet_Size h p"
  by (simp add: HashSet_Size_def deref_append_old)

lemma Contains_append_old:
  "p < length h \<Longrightarrow> HashSet_Contains (h @ [s]) p x = HashSet_Contains h p x"
  by (simp add: HashSet_Contains_def deref_append_old)

lemma Contains_append_new:
  "HashSet_Contains (h @ [s]) (length h) x = Inr (x |\<in>| fmdom (items s))"
  by (simp add: HashSet_Contains_def deref_append_new)

lemma ffilter_finsert_if:
  "ffilter P (finsert x A) = (if P x then finsert x (ffilter P A) else ffilter P A)"
  by auto

lemma ffilter_fempty: "ffilter P {||} = {||}"
  by auto

lemma Union_valid:
  "A < length h \<Longrightarrow> B < length h \<Longrightarrow>
   HashSet_Union h A B = Inr (h @ [\<lparr>items = items (h ! A) ++\<^sub>f items (h ! B)\<rparr>], length h)"
  by (simp add: HashSet_Union_def deref_valid alloc_def)

lemma Difference_valid:
  "A < length h \<Longrightarrow> B < length h \<Longrightarrow>
   HashSet_Difference h A B =
     Inr (h @ [\<lparr>items = fmfilter (\<lambda>x. x |\<notin>| fmdom (items (h ! B))) (items (h ! A))\<rparr>], length h)"
  by (simp add: HashSet_Difference_def deref_valid alloc_def)

lemma Intersection_valid:
  "A < length h \<Longrightarrow> B < length h \<Longrightarrow>
   \<exists>s. HashSet_Intersection h A B = Inr (h @ [s], length h)
     \<and> fmdom (items s) = fmdom (items (h ! A)) |\<inter>| fmdom (items (h ! B))"
  by (auto simp: HashSet_Intersection_def deref_valid alloc_def)

section \<open>The claims\<close>

subsection \<open>Typed and reflection-based slice helpers\<close>

text \<open>
  Claim C1 says that the typed helper \<open>Difference(a, b)\<close> returns the elements unique to
  either side.  On the example of the function's own doc comment, \<open>Difference\<close> of
  \<open>[1, 2, 3, 4]\<close> and \<open>[3, 4, 5, 6]\<close>, the code returns \<open>[5, 6]\<close>: the elements \<open>1\<close> and
  \<open>2\<close>, which occur only in the first slice, are missing, because the third loop tests the
  items of \<open>slice1\<close> against the map built from \<open>slice1\<close> itself.
\<close>

theorem Difference_one_sided:
  "Difference [Val 1, Val 2, Val 3, Val 4] [Val 3, Val 4, Val 5, Val 6] = Inr [Val 5, Val (6 :: int)]"
  by (simp add: Difference_filter)

text \<open>
  Claim C3 says that \<open>Difference_N(c1, c2)\<close> returns, for slice or array collections, the
  elements of \<open>c1\<close> not contained in \<open>c2\<close>.  For an array as first collection the code
  passes the array type to \<open>reflect.MakeSlice\<close> and panics before its loop starts.  (For a
  slice as first collection it returns the filtered elements in order, lemma
  \<open>Difference_N_Slice\<close>.)
\<close>

theorem Difference_N_array_panics:
  "Difference_N (=) (Array [1, 2, 3 :: int]) (Slice [3]) = Inl MakeSliceOfNonSliceType"
  by (simp add: Difference_N_def MakeSlice_like_def)

text \<open>
  Claim C4, for slices whose elements can be hashed and are equal to themselves:
  intersection is commutative with respect to membership.  The typed helper \<open>Intersect\<close>
  iterates its second operand against a map of the first: it returns without a panic, an
  element belongs to \<open>Intersect(a, b)\<close> iff it belongs to \<open>Intersect(b, a)\<close>, and that is
  the case exactly when it occurs in \<open>a\<close> and in \<open>b\<close>.  The reflection-based helper
  \<open>Intersection\<close> iterates its first operand against \<open>Contains_N\<close> of the second: on two
  slices, and for a symmetric and transitive \<open>reflect.DeepEqual\<close>, the same holds with
  membership decided by \<open>Contains_N\<close>.
\<close>

theorem Intersection_membership_commutes:
  "((\<forall>v \<in> set a \<union> set b. ordinary v) \<longrightarrow>
      (\<exists>r1 r2. Intersect a b = Inr r1 \<and> Intersect b a = Inr r2
         \<and> (x \<in> set r1 \<longleftrightarrow> x \<in> set r2)
         \<and> (x \<in> set r1 \<longleftrightarrow> x \<in> set a \<and> x \<in> set b)))
   \<and> (symp DeepEqual \<and> transp DeepEqual \<longrightarrow>
      (\<exists>r1 r2. Intersection DeepEqual (Slice c) (Slice d) = Inr (Slice r1)
         \<and> Intersection DeepEqual (Slice d) (Slice c) = Inr (Slice r2)
         \<and> (Contains_N DeepEqual (Slice r1) y \<longleftrightarrow> Contains_N DeepEqual (Slice r2) y)
         \<and> (Contains_N DeepEqual (Slice r1) y
               \<longleftrightarrow> Contains_N DeepEqual (Slice c) y \<and> Contains_N DeepEqual (Slice d) y)))"
proof (intro conjI impI)
  assume o: "\<forall>v \<in> set a \<union> set b. ordinary v"
  then have h: "\<forall>v \<in> set a. hashable v" "\<forall>v \<in> set b. hashable v"
    by (auto intro: ordinary_hashable)
  have "Intersect a b = Inr (filter (\<lambda>v. ordinary v \<and> v \<in> set a) b)"
       "Intersect b a = Inr (filter (\<lambda>v. ordinary v \<and> v \<in> set b) a)"
    using h by (simp_all add: Intersect_filter)
  then show "\<exists>r1 r2. Intersect a b = Inr r1 \<and> Intersect b a = Inr r2
         \<and> (x \<in> set r1 \<longleftrightarrow> x \<in> set r2)
         \<and> (x \<in> set r1 \<longleftrightarrow> x \<in> set a \<and> x \<in> set b)"
    using o by auto
next
  assume "symp DeepEqual \<and> transp DeepEqual"
  then have st: "symp DeepEqual" "transp DeepEqual" by simp_all
  show "\<exists>r1 r2. Intersection DeepEqual (Slice c) (Slice d) = Inr (Slice r1)
         \<and> Intersection DeepEqual (Slice d) (Slice c) = Inr (Slice r2)
         \<and> (Contains_N DeepEqual (Slice r1) y \<longleftrightarrow> Contains_N DeepEqual (Slice r2) y)
         \<and> (Contains_N DeepEqual (Slice r1) y
               \<longleftrightarrow> Contains_N DeepEqual (Slice c) y \<and> Contains_N DeepEqual (Slice d) y)"
    using Contains_N_Intersection [OF st, of d c y] Contains_N_Intersection [OF st, of c d y]
    by (auto simp: Intersection_Slice)
qed

theorem Intersection_membership_commutes_witness:
  "list_all ordinary ([Val 1, Val 2, Val (3 :: int)] @ [Val 2, Val 3, Val 4])
   \<and> symp ((=) :: int \<Rightarrow> int \<Rightarrow> bool) \<and> transp ((=) :: int \<Rightarrow> int \<Rightarrow> bool)
   \<and> Intersect [Val 1, Val 2, Val (3 :: int)] [Val 2, Val 3, Val 4] = Inr [Val 2, Val 3]
   \<and> Intersect [Val 2, Val 3, Val 4] [Val 1, Val 2, Val (3 :: int)] = Inr [Val 2, Val 3]
   \<and> Intersection (=) (Slice [1, 2, 3 :: int]) (Slice [2, 3, 4]) = Inr (Slice [2, 3])
   \<and> Intersection (=) (Slice [2, 3, 4]) (Slice [1, 2, 3 :: int]) = Inr (Slice [2, 3])"
proof -
  have o: "\<forall>v \<in> set [Val 1, Val 2, Val (3 :: int)] \<union> set [Val 2, Val 3, Val 4]. ordinary v"
    by simp
  have st: "symp ((=) :: int \<Rightarrow> int \<Rightarrow> bool) \<and> transp ((=) :: int \<Rightarrow> int \<Rightarrow> bool)"
    by (simp add: symp_def transp_def)
  from Intersection_membership_commutes
         [of "[Val 1, Val 2, Val (3 :: int)]" "[Val 2, Val 3, Val 4]" "Val 2"
             "(=) :: int \<Rightarrow> int \<Rightarrow> bool" "[1, 2, 3]" "[2, 3, 4]" 2]
    o st
  have "\<exists>r1 r2. Intersect [Val 1, Val 2, Val (3 :: int)] [Val 2, Val 3, Val 4] = Inr r1
          \<and> Intersect [Val 2, Val 3, Val 4] [Val 1, Val 2, Val (3 :: int)] = Inr r2
          \<and> (Val 2 \<in> set r1 \<longleftrightarrow> Val 2 \<in> set r2)"
    by blast
  moreover have
    "Intersect [Val 1, Val 2, Val (3 :: int)] [Val 2, Val 3, Val 4] = Inr [Val 2, Val 3]"
    "Intersect [Val 2, Val 3, Val 4] [Val 1, Val 2, Val (3 :: int)] = Inr [Val 2, Val 3]"
    by (simp_all add: Intersect_filter)
  moreover have
    "Intersection (=) (Slice [1, 2, 3 :: int]) (Slice [2, 3, 4]) = Inr (Slice [2, 3])"
    "Intersection (=) (Slice [2, 3, 4]) (Slice [1, 2, 3 :: int]) = Inr (Slice [2, 3])"
    by (simp_all add: Intersection_Slice Contains_N_Slice_eq)
  ultimately show ?thesis
    using st by simp
qed

text \<open>
  Claim C4 as stated, for all operands, fails outside that domain.  A NaN that occurs in
  both slices is not in their intersection, because a map never finds a NaN key; a key of
  an uncomparable dynamic type makes \<open>Intersect\<close> panic.  With an array as first operand
  \<open>Intersection\<close> panics in \<open>reflect.MakeSlice\<close>, while with the operands swapped it
  returns.
\<close>

theorem Intersection_keys_counterexample:
  "Intersect [Irreflexive 0, Val (1 :: int)] [Irreflexive 0, Val 1] = Inr [Val 1]
   \<and> Intersect [Unhashable (0 :: int)] [Val 1] = Inl HashOfUnhashableType
   \<and> Intersection (=) (Array [1 :: int]) (Slice [1]) = Inl MakeSliceOfNonSliceType
   \<and> Intersection (=) (Slice [1 :: int]) (Array [1]) = Inr (Slice [1])"
  by (simp add: Intersect_def mark_all_def map_assign_def index_bool_def map_index_def
        Intersection_def MakeSlice_like_def slice_or_array_def Contains_N_def)

text \<open>
  Claim C8, for slices of fewer than \<open>2 ^ 62\<close> elements: \<open>Chunk(s, chunkSize)\<close> returns
  nil when \<open>chunkSize \<le> 0\<close> (for a slice of any length).  When \<open>chunkSize > 0\<close> the loop
  returns without a panic, the chunks concatenated in order give \<open>s\<close> back, every chunk
  but the last has exactly \<open>chunkSize\<close> elements, and the last one has between 1 and
  \<open>chunkSize\<close>.  \<open>chunkSize\<close> is a Go \<open>int\<close>, hence below \<open>2 ^ 63\<close>; the bound on the
  length keeps \<open>i + chunkSize\<close> from wrapping around while \<open>i < len(s)\<close>.
\<close>

theorem Chunk_spec:
  "(chunkSize \<le> 0 \<longrightarrow> Chunk s chunkSize = Some (Inr None))
   \<and> (0 < chunkSize \<and> chunkSize < 2 ^ 63 \<and> int (length s) < 2 ^ 62 \<longrightarrow>
        (\<exists>chunks. Chunk s chunkSize = Some (Inr chunks)
           \<and> concat (elems chunks) = s
           \<and> (\<forall>c \<in> set (butlast (elems chunks)). int (length c) = chunkSize)
           \<and> (elems chunks \<noteq> [] \<longrightarrow>
                 1 \<le> length (last (elems chunks))
                 \<and> int (length (last (elems chunks))) \<le> chunkSize)))"
proof (intro conjI impI)
  assume "chunkSize \<le> 0"
  then show "Chunk s chunkSize = Some (Inr None)" by (simp add: Chunk_def)
next
  assume a: "0 < chunkSize \<and> chunkSize < 2 ^ 63 \<and> int (length s) < 2 ^ 62"
  let ?P = "\<lambda>chunks. Chunk s chunkSize = Some (Inr chunks)
           \<and> concat (elems chunks) = s
           \<and> (\<forall>c \<in> set (butlast (elems chunks)). int (length c) = chunkSize)
           \<and> (elems chunks \<noteq> [] \<longrightarrow>
                 1 \<le> length (last (elems chunks))
                 \<and> int (length (last (elems chunks))) \<le> chunkSize)"
  show "\<exists>chunks. ?P chunks"
  proof (cases "int (length s) \<le> chunkSize")
    case True
    show ?thesis
    proof (cases "s = []")
      case True
      then have "?P None" using a by (simp add: Chunk_def Chunk_loop_exit elems_def)
      then show ?thesis ..
    next
      case False
      with True a have "Chunk s chunkSize = Some (Inr (Some [s]))"
        by (simp add: Chunk_def Chunk_loop_single)
      with False True have "?P (Some [s])" by (cases s) (simp_all add: elems_def)
      then show ?thesis ..
    qed
  next
    case False
    with a have "int (length s) + chunkSize < 2 ^ 63" by simp
    from Chunk_loop_run [OF _ this, of 0 None] a
    obtain new where new:
      "Chunk_loop s chunkSize 0 None = Some (Inr (extend None new))"
      "concat new = s"
      "\<forall>c \<in> set (butlast new). int (length c) = chunkSize"
      "new \<noteq> [] \<longrightarrow> 1 \<le> length (last new) \<and> int (length (last new)) \<le> chunkSize"
      by auto
    have "elems (extend None new) = new" by (simp add: extend_def elems_def)
    with new a have "?P (extend None new)" by (simp add: Chunk_def)
    then show ?thesis ..
  qed
qed

theorem Chunk_spec_witness:
  "(0::int) < 2 \<and> (2::int) < 2 ^ 63 \<and> int (length [1, 2, 3, 4, 5 :: int]) < 2 ^ 62
   \<and> (- 1 :: int) \<le> 0
   \<and> Chunk [1, 2, 3, 4, 5 :: int] (- 1) = Some (Inr None)
   \<and> Chunk [1, 2, 3, 4, 5 :: int] 2 = Some (Inr (Some [[1, 2], [3, 4], [5]]))
   \<and> concat (elems (Some [[1, 2], [3, 4], [5 :: int]])) = [1, 2, 3, 4, 5]"
  using Chunk_spec [of "- 1" "[1, 2, 3, 4, 5 :: int]"] Chunk_spec [of 2 "[1, 2, 3, 4, 5 :: int]"]
  by (simp add: Chunk_def Chunk_loop.simps wrap64_def slice_expr_def append_nilable_def elems_def)

text \<open>
  Claim C8 as stated, for every slice, fails beyond that bound.  A slice of zero-size
  elements such as \<open>make([]struct{}, 1<<63 - 1)\<close> needs no memory; with
  \<open>chunkSize = 1<<63 - 2\<close> the second iteration computes \<open>end = i + chunkSize\<close>, which
  wraps around to \<open>-4\<close>, and the slice expression \<open>slice[i:end]\<close> panics.
\<close>

theorem Chunk_wraps_counterexample:
  "Chunk (replicate (2 ^ 63 - 1) ()) (2 ^ 63 - 2) = Some (Inl SliceBoundsOutOfRange)"
proof -
  define s :: "unit list" where "s = replicate (2 ^ 63 - 1) ()"
  define c :: int where "c = 2 ^ 63 - 2"
  have len: "int (length s) = 2 ^ 63 - 1"
    by (simp add: s_def of_nat_diff)
  have "Chunk_loop s c (int 0) None =
          Chunk_loop s c (int 0 + c) (append_nilable None (take (min (nat c) (length s - 0)) (drop 0 s)))"
  proof (rule Chunk_loop_step)
    show "0 < length s" using len by simp
    show "0 < c" by (simp add: c_def)
    show "int 0 + c < 2 ^ 63" by (simp add: c_def)
  qed
  moreover have "Chunk_loop s c c acc = Some (Inl SliceBoundsOutOfRange)" for acc
  proof (rule Chunk_loop_wrap_panics)
    show "c < int (length s)" unfolding len by (simp add: c_def)
    show "wrap64 (c + c) < c" by (simp add: c_def wrap64_def)
  qed
  ultimately have "Chunk_loop s c 0 None = Some (Inl SliceBoundsOutOfRange)"
    by simp
  moreover have "0 < c" by (simp add: c_def)
  ultimately have "Chunk s c = Some (Inl SliceBoundsOutOfRange)"
    by (simp add: Chunk_def)
  then show ?thesis
    by (simp only: s_def c_def)
qed

text \<open>
  Claim C9, for slices whose elements can be hashed and are equal to themselves:
  \<open>Unique(s)\<close> returns without a panic, has no duplicates, has exactly the elements of
  \<open>s\<close>, lists them in the order of their first occurrence in \<open>s\<close> (an element listed
  earlier has the smaller index of first occurrence), and applying \<open>Unique\<close> to the result
  gives the result again.
\<close>

theorem Unique_spec:
  "(\<forall>v \<in> set s. ordinary v) \<longrightarrow>
     (\<exists>r. Unique s = Inr r
        \<and> distinct r
        \<and> set r = set s
        \<and> sorted_wrt (\<lambda>a b. first_index s a < first_index s b) r
        \<and> Unique r = Inr r)"
proof
  assume o: "\<forall>v \<in> set s. ordinary v"
  then have "\<forall>v \<in> set (keep_first s). ordinary v"
    by (simp add: set_keep_first)
  then have "Unique (keep_first s) = Inr (keep_first s)"
    by (simp add: Unique_ordinary keep_first_distinct_id distinct_keep_first)
  with o show "\<exists>r. Unique s = Inr r
        \<and> distinct r
        \<and> set r = set s
        \<and> sorted_wrt (\<lambda>a b. first_index s a < first_index s b) r
        \<and> Unique r = Inr r"
    by (simp add: Unique_ordinary distinct_keep_first set_keep_first keep_first_order)
qed

theorem Unique_spec_witness:
  "list_all ordinary [Val 3, Val 1, Val 3, Val 2, Val (1 :: int)]
   \<and> Unique [Val 3, Val 1, Val 3, Val 2, Val (1 :: int)] = Inr [Val 3, Val 1, Val 2]
   \<and> Unique [Val 3, Val 1, Val (2 :: int)] = Inr [Val 3, Val 1, Val 2]"
proof -
  have o: "\<forall>v \<in> set [Val 3, Val 1, Val 3, Val 2, Val (1 :: int)]. ordinary v"
    by simp
  have u: "Unique [Val 3, Val 1, Val 3, Val 2, Val (1 :: int)] = Inr [Val 3, Val 1, Val 2]"
    by (simp add: Unique_ordinary keep_first_def)
  from Unique_spec [of "[Val 3, Val 1, Val 3, Val 2, Val (1 :: int)]"] o
  obtain r where "Unique [Val 3, Val 1, Val 3, Val 2, Val (1 :: int)] = Inr r" "Unique r = Inr r"
    by blast
  with u show ?thesis by simp
qed

text \<open>
  Claim C9 as stated, for every slice of a comparable element type, fails outside that
  domain.  For \<open>[]float64{NaN, NaN, 1}\<close> the map never finds the NaN key, so both NaNs are
  kept; for a slice of interface values that holds a value of an uncomparable dynamic type,
  reading the map panics.
\<close>

theorem Unique_keys_counterexample:
  "Unique [Irreflexive 0, Irreflexive 0, Val (1 :: int)] = Inr [Irreflexive 0, Irreflexive 0, Val 1]
   \<and> Unique [Unhashable (0 :: int)] = Inl HashOfUnhashableType"
  by (simp add: Unique_def Unique_step_def map_assign_def map_index_def)

text \<open>
  Claim C10: \<open>Pop\<close> and \<open>Shift\<close> never panic.  On the empty slice each returns the empty
  slice it was given; on a non-empty slice \<open>Pop\<close> returns all elements but the last and
  \<open>Shift\<close> all elements but the first.
\<close>

theorem Pop_Shift_total:
  "Pop ([] :: 'a list) = Inr [] \<and> Shift ([] :: 'a list) = Inr []
   \<and> (s \<noteq> [] \<longrightarrow> Pop s = Inr (butlast s) \<and> Shift s = Inr (tl s))"
proof -
  have "s \<noteq> [] \<Longrightarrow> Pop s = Inr (butlast s)"
    by (cases s rule: rev_cases) (simp_all add: Pop_def slice_expr_def)
  moreover have "s \<noteq> [] \<Longrightarrow> Shift s = Inr (tl s)"
    by (cases s) (simp_all add: Shift_def slice_expr_def)
  ultimately show ?thesis
    by (simp add: Pop_def Shift_def)
qed

theorem Pop_Shift_total_witness:
  "[1, 2, 3 :: int] \<noteq> []
   \<and> Pop [1, 2, 3 :: int] = Inr [1, 2] \<and> Shift [1, 2, 3 :: int] = Inr [2, 3]"
  using Pop_Shift_total [of "[1, 2, 3 :: int]"] by auto

subsection \<open>The hash set\<close>

text \<open>
  Claim C2: for sets \<open>A\<close> and \<open>B\<close>, every element of \<open>A.Difference(B)\<close> is an element of
  \<open>A\<close> and none is an element of \<open>B\<close>.
\<close>

theorem HashSet_Difference_members:
  assumes "A < length h" "B < length h"
  shows "\<exists>h' D. HashSet_Difference h A B = Inr (h', D)
           \<and> (\<forall>x. HashSet_Contains h' D x = Inr True \<longrightarrow>
                  HashSet_Contains h' B x = Inr False \<and> HashSet_Contains h' A x = Inr True)"
  using assms
  by (simp add: Difference_valid Contains_append_new Contains_append_old)
     (simp add: HashSet_Contains_def deref_valid)

theorem HashSet_Difference_members_witness:
  "0 < length [\<lparr>items = fmupd (1 :: int) () fmempty\<rparr>, \<lparr>items = fmempty\<rparr>]
   \<and> 1 < length [\<lparr>items = fmupd (1 :: int) () fmempty\<rparr>, \<lparr>items = fmempty\<rparr>]
   \<and> (\<exists>h' D. HashSet_Difference [\<lparr>items = fmupd (1 :: int) () fmempty\<rparr>, \<lparr>items = fmempty\<rparr>] 0 1
                 = Inr (h', D)
          \<and> HashSet_Contains h' D 1 = Inr True
          \<and> HashSet_Contains h' 1 1 = Inr False
          \<and> HashSet_Contains h' 0 1 = Inr True)"
proof -
  let ?h = "[\<lparr>items = fmupd (1 :: int) () fmempty\<rparr>, \<lparr>items = fmempty\<rparr>]"
  have v: "0 < length ?h" "1 < length ?h" by simp_all
  from HashSet_Difference_members [OF v]
  obtain h' D where d: "HashSet_Difference ?h 0 1 = Inr (h', D)"
    and m: "\<forall>x. HashSet_Contains h' D x = Inr True \<longrightarrow>
                  HashSet_Contains h' 1 x = Inr False \<and> HashSet_Contains h' 0 x = Inr True"
    by blast
  have "HashSet_Contains h' D 1 = Inr True"
    using d by (auto simp: HashSet_Difference_def alloc_def HashSet_Contains_def deref_def)
  with d m v show ?thesis by blast
qed

text \<open>
  The scenario of \<open>TestHashSet_Difference\<close>: for \<open>A = {1, 2, 4}\<close> and \<open>B = {2, 3}\<close> the
  difference has size 2 and contains 1 and 4, and both operands keep their sizes.
\<close>

lemma HashSet_Difference_scenario:
  "case NewHashSet [] [1, 2, 4 :: int] of (h1, A) \<Rightarrow>
   case NewHashSet h1 [2, 3] of (h2, B) \<Rightarrow>
     (\<exists>h3 D. HashSet_Difference h2 A B = Inr (h3, D)
        \<and> HashSet_Size h3 D = Inr 2
        \<and> HashSet_Contains h3 D 1 = Inr True \<and> HashSet_Contains h3 D 4 = Inr True
        \<and> HashSet_Size h3 A = Inr 3 \<and> HashSet_Size h3 B = Inr 2)"
  by (simp add: NewHashSet_def alloc_def HashSet_Difference_def HashSet_Size_def
        HashSet_Contains_def deref_def fcard_finsert_if nth_append
        ffilter_finsert_if ffilter_fempty)

text \<open>
  The members of \<open>A.Intersection(B)\<close> are the elements present in both operands, whichever
  of the two is the smaller one that gets iterated; so the order of the operands does not
  change the members.
\<close>

lemma HashSet_Intersection_members:
  assumes "A < length h" "B < length h"
  shows "\<exists>h1 I h2 J. HashSet_Intersection h A B = Inr (h1, I)
           \<and> HashSet_Intersection h1 B A = Inr (h2, J)
           \<and> HashSet_Contains h2 I x = HashSet_Contains h2 J x
           \<and> HashSet_Contains h2 I x
                 = Inr (HashSet_Contains h A x = Inr True \<and> HashSet_Contains h B x = Inr True)"
proof -
  from Intersection_valid [OF assms]
  obtain s where s: "HashSet_Intersection h A B = Inr (h @ [s], length h)"
      "fmdom (items s) = fmdom (items (h ! A)) |\<inter>| fmdom (items (h ! B))"
    by blast
  have v: "B < length (h @ [s])" "A < length (h @ [s])"
    using assms by simp_all
  from Intersection_valid [OF v]
  obtain t where t: "HashSet_Intersection (h @ [s]) B A = Inr (h @ [s] @ [t], Suc (length h))"
      "fmdom (items t) = fmdom (items ((h @ [s]) ! B)) |\<inter>| fmdom (items ((h @ [s]) ! A))"
    by auto
  have "HashSet_Contains (h @ [s] @ [t]) (length h) x = Inr (x |\<in>| fmdom (items s))"
       "HashSet_Contains (h @ [s] @ [t]) (Suc (length h)) x = Inr (x |\<in>| fmdom (items t))"
    by (simp_all add: HashSet_Contains_def deref_def nth_append)
  moreover have "HashSet_Contains h A x = Inr (x |\<in>| fmdom (items (h ! A)))"
       "HashSet_Contains h B x = Inr (x |\<in>| fmdom (items (h ! B)))"
    using assms by (simp_all add: HashSet_Contains_def deref_def)
  ultimately show ?thesis
    using s t assms by (auto simp: nth_append)
qed

text \<open>
  Claim C5: the size of \<open>A.Union(B)\<close> is \<open>Size(A) + Size(B) - Size(A.Intersection(B))\<close>;
  for \<open>A = {1, 2, 4}\<close> and \<open>B = {2, 3}\<close> the union has size 4 and contains 1, 2, 3 and 4,
  and the intersection has size 1 and contains 2.
\<close>

theorem HashSet_inclusion_exclusion:
  "(A < length h \<and> B < length h \<longrightarrow>
      (\<exists>h1 U h2 I nu na nb ni.
          HashSet_Union h A B = Inr (h1, U)
        \<and> HashSet_Intersection h1 A B = Inr (h2, I)
        \<and> HashSet_Size h2 U = Inr nu \<and> HashSet_Size h2 A = Inr na
        \<and> HashSet_Size h2 B = Inr nb \<and> HashSet_Size h2 I = Inr ni
        \<and> nu = na + nb - ni))
   \<and> (case NewHashSet [] [1, 2, 4 :: int] of (h1, A) \<Rightarrow>
       case NewHashSet h1 [2, 3] of (h2, B) \<Rightarrow>
         (\<exists>h3 U h4 I.
             HashSet_Union h2 A B = Inr (h3, U)
           \<and> HashSet_Size h3 U = Inr 4
           \<and> HashSet_Contains h3 U 1 = Inr True \<and> HashSet_Contains h3 U 2 = Inr True
           \<and> HashSet_Contains h3 U 3 = Inr True \<and> HashSet_Contains h3 U 4 = Inr True
           \<and> HashSet_Intersection h3 A B = Inr (h4, I)
           \<and> HashSet_Size h4 I = Inr 1
           \<and> HashSet_Contains h4 I 2 = Inr True))"
proof (intro conjI impI)
  assume v: "A < length h \<and> B < length h"
  define u where "u = \<lparr>items = items (h ! A) ++\<^sub>f items (h ! B)\<rparr>"
  have U: "HashSet_Union h A B = Inr (h @ [u], length h)"
    using v by (simp add: Union_valid u_def)
  have v1: "A < length (h @ [u])" "B < length (h @ [u])" using v by simp_all
  from Intersection_valid [OF v1]
  obtain s where I: "HashSet_Intersection (h @ [u]) A B = Inr (h @ [u] @ [s], length (h @ [u]))"
    and s: "fmdom (items s) = fmdom (items ((h @ [u]) ! A)) |\<inter>| fmdom (items ((h @ [u]) ! B))"
    by auto
  have s': "fmdom (items s) = fmdom (items (h ! A)) |\<inter>| fmdom (items (h ! B))"
    using s v by (simp add: nth_append)
  let ?h2 = "h @ [u] @ [s]"
  have sz: "HashSet_Size ?h2 (length h) = Inr (int (fcard (fmdom (items u))))"
       "HashSet_Size ?h2 A = Inr (int (fcard (fmdom (items (h ! A)))))"
       "HashSet_Size ?h2 B = Inr (int (fcard (fmdom (items (h ! B)))))"
       "HashSet_Size ?h2 (Suc (length h)) = Inr (int (fcard (fmdom (items s))))"
    using v by (simp_all add: HashSet_Size_def deref_def nth_append)
  have "int (fcard (fmdom (items u))) =
          int (fcard (fmdom (items (h ! A)))) + int (fcard (fmdom (items (h ! B))))
          - int (fcard (fmdom (items s)))"
    using fcard_funion_finter [of "fmdom (items (h ! A))" "fmdom (items (h ! B))"]
    by (simp add: u_def s')
  with U I sz show "\<exists>h1 U h2 I nu na nb ni.
          HashSet_Union h A B = Inr (h1, U)
        \<and> HashSet_Intersection h1 A B = Inr (h2, I)
        \<and> HashSet_Size h2 U = Inr nu \<and> HashSet_Size h2 A = Inr na
        \<and> HashSet_Size h2 B = Inr nb \<and> HashSet_Size h2 I = Inr ni
        \<and> nu = na + nb - ni"
    by simp
next
  show "case NewHashSet [] [1, 2, 4 :: int] of (h1, A) \<Rightarrow>
       case NewHashSet h1 [2, 3] of (h2, B) \<Rightarrow>
         (\<exists>h3 U h4 I.
             HashSet_Union h2 A B = Inr (h3, U)
           \<and> HashSet_Size h3 U = Inr 4
           \<and> HashSet_Contains h3 U 1 = Inr True \<and> HashSet_Contains h3 U 2 = Inr True
           \<and> HashSet_Contains h3 U 3 = Inr True \<and> HashSet_Contains h3 U 4 = Inr True
           \<and> HashSet_Intersection h3 A B = Inr (h4, I)
           \<and> HashSet_Size h4 I = Inr 1
           \<and> HashSet_Contains h4 I 2 = Inr True)"
    by (simp add: NewHashSet_def alloc_def HashSet_Union_def HashSet_Intersection_def
          HashSet_Size_def HashSet_Contains_def deref_def fcard_finsert_if nth_append
          ffilter_finsert_if ffilter_fempty)
qed

theorem HashSet_inclusion_exclusion_witness:
  "0 < length [\<lparr>items = fmupd (1 :: int) () fmempty\<rparr>, \<lparr>items = fmempty\<rparr>]
   \<and> 1 < length [\<lparr>items = fmupd (1 :: int) () fmempty\<rparr>, \<lparr>items = fmempty\<rparr>]
   \<and> (\<exists>h1 U h2 I nu na nb ni.
          HashSet_Union [\<lparr>items = fmupd (1 :: int) () fmempty\<rparr>, \<lparr>items = fmempty\<rparr>] 0 1 = Inr (h1, U)
        \<and> HashSet_Intersection h1 0 1 = Inr (h2, I)
        \<and> HashSet_Size h2 U = Inr nu \<and> HashSet_Size h2 0 = Inr na
        \<and> HashSet_Size h2 1 = Inr nb \<and> HashSet_Size h2 I = Inr ni
        \<and> nu = na + nb - ni)"
  using HashSet_inclusion_exclusion [of 0 "[\<lparr>items = fmupd (1 :: int) () fmempty\<rparr>, \<lparr>items = fmempty\<rparr>]" 1]
  by simp

text \<open>
  Claim C6: each of \<open>Union\<close>, \<open>Intersection\<close> and \<open>Difference\<close> returns a reference that was
  not allocated before the call and holds a set after it, and leaves every set that existed
  before the call as it was; in particular the sizes and the members of both operands are
  the same after the call as before.
\<close>

theorem HashSet_algebra_frame:
  assumes "A < length h" "B < length h"
    and "op \<in> {HashSet_Union, HashSet_Intersection, HashSet_Difference}"
  shows "\<exists>h' R. op h A B = Inr (h', R)
           \<and> deref h R = Inl NilPointerDereference
           \<and> (\<exists>s. deref h' R = Inr s)
           \<and> (\<forall>p. p < length h \<longrightarrow> deref h' p = deref h p)
           \<and> HashSet_Size h' A = HashSet_Size h A
           \<and> HashSet_Size h' B = HashSet_Size h B
           \<and> (\<forall>x. HashSet_Contains h' A x = HashSet_Contains h A x
                  \<and> HashSet_Contains h' B x = HashSet_Contains h B x)"
proof -
  have "\<exists>s. op h A B = Inr (h @ [s], length h)"
    using assms Intersection_valid [of A h B]
    by (auto simp: Union_valid Difference_valid)
  then obtain s where "op h A B = Inr (h @ [s], length h)" ..
  then show ?thesis
    using assms(1,2)
    by (simp add: deref_fresh deref_append_new deref_append_old Size_append_old Contains_append_old)
qed

theorem HashSet_algebra_frame_witness:
  "0 < length [\<lparr>items = fmupd (1 :: int) () fmempty\<rparr>, \<lparr>items = fmempty\<rparr>]
   \<and> 1 < length [\<lparr>items = fmupd (1 :: int) () fmempty\<rparr>, \<lparr>items = fmempty\<rparr>]
   \<and> (\<exists>h' R. HashSet_Union [\<lparr>items = fmupd (1 :: int) () fmempty\<rparr>, \<lparr>items = fmempty\<rparr>] 0 1
                 = Inr (h', R)
          \<and> HashSet_Size h' 0 = Inr 1 \<and> HashSet_Size h' 1 = Inr 0)"
proof -
  let ?h = "[\<lparr>items = fmupd (1 :: int) () fmempty\<rparr>, \<lparr>items = fmempty\<rparr>]"
  have v: "0 < length ?h" "1 < length ?h" by simp_all
  have s: "HashSet_Size ?h 0 = Inr 1" "HashSet_Size ?h 1 = Inr 0"
    by (simp_all add: HashSet_Size_def deref_def fcard_finsert_if)
  have "HashSet_Union \<in> {HashSet_Union, HashSet_Intersection, HashSet_Difference}"
    by simp
  from HashSet_algebra_frame [OF v this] s v show ?thesis
    by auto
qed

text \<open>
  Claim C7: after \<open>S.Add(e)\<close> the set contains \<open>e\<close>; adding \<open>e\<close> once more leaves the size
  as it is, and so does adding an element to a set that already contains it.
\<close>

theorem HashSet_Add_idempotent:
  assumes "S < length h"
  shows "\<exists>h1. HashSet_Add h S e = Inr h1
           \<and> HashSet_Contains h1 S e = Inr True
           \<and> (\<exists>h2 n. HashSet_Add h1 S e = Inr h2
                  \<and> HashSet_Size h1 S = Inr n \<and> HashSet_Size h2 S = Inr n)
           \<and> (HashSet_Contains h S e = Inr True \<longrightarrow> HashSet_Size h1 S = HashSet_Size h S)"
  using assms
  by (auto simp: HashSet_Add_def HashSet_Contains_def HashSet_Size_def deref_def fcard_finsert_if)

theorem HashSet_Add_idempotent_witness:
  "0 < length (fst (NewHashSet [] [1, 2 :: int]))
   \<and> HashSet_Contains (fst (NewHashSet [] [1, 2 :: int])) 0 1 = Inr True
   \<and> (\<exists>h1. HashSet_Add (fst (NewHashSet [] [1, 2 :: int])) 0 1 = Inr h1
          \<and> HashSet_Contains h1 0 1 = Inr True
          \<and> HashSet_Size h1 0 = HashSet_Size (fst (NewHashSet [] [1, 2 :: int])) 0)"
proof -
  let ?h = "fst (NewHashSet [] [1, 2 :: int])"
  have v: "0 < length ?h"
    by (simp add: NewHashSet_def alloc_def)
  have c: "HashSet_Contains ?h 0 1 = Inr True"
    by (simp add: NewHashSet_def alloc_def HashSet_Contains_def deref_def)
  from HashSet_Add_idempotent [OF v, of 1] c v show ?thesis
    by blast
qed

end
